theory Spec2Isabelle
  imports Main
begin

section \<open>Console redirection of the bootstrap script\<close>

text \<open>
  The class \<^verbatim>\<open>_BAConsoleRedirect\<close> of
  \<^verbatim>\<open>src/meta/bameta/python_embedded/bootstrap.py\<close> replaces
  \<^verbatim>\<open>sys.stdout\<close> and \<^verbatim>\<open>sys.stderr\<close>. Every method is modelled as a
  function from the object's state to a result and the state after the call. The
  bodies of the two \<^verbatim>\<open>with self._lock:\<close> blocks are definitions of their own
  (\<open>write_locked\<close>, \<open>shiplog_locked\<close>); the model is sequential, so each method runs
  without another thread in between.
\<close>

subsection \<open>Values, exceptions and calls that leave the class\<close>

text \<open>
  \<^verbatim>\<open>write\<close> takes \<^verbatim>\<open>sval: Any\<close>. The values kept apart are a \<^verbatim>\<open>str\<close>,
  a \<^verbatim>\<open>bytes\<close> (it has \<^verbatim>\<open>endswith\<close>, but not for a \<^verbatim>\<open>str\<close> suffix), an
  \<^verbatim>\<open>int\<close> and \<^verbatim>\<open>None\<close> (neither has \<^verbatim>\<open>endswith\<close>).
\<close>

datatype pyval = PStr string | PBytes string | PInt int | PNone

text \<open>
  \<open>SinkError\<close> stands for whatever one of the functions the class calls but does not
  define raises.
\<close>

datatype error = AttributeError | TypeError | SinkError

text \<open>
  The calls that leave the class, in the order they are made:
  \<^verbatim>\<open>self._call(sval)\<close>, \<^verbatim>\<open>_ba.log(line, to_stdout=...)\<close>,
  \<^verbatim>\<open>_ba.pushcall(self._shiplog, from_other_thread=True,
  suppress_other_thread_warning=True)\<close>, \<^verbatim>\<open>self._original.flush()\<close> and
  \<^verbatim>\<open>self._original.isatty()\<close>.
\<close>

datatype effect =
    Call pyval
  | Log string bool
  | Pushcall
  | OrigFlush
  | OrigIsatty

text \<open>
  None of the called functions is in the source, so they are parameters: \<open>raises\<close>
  tells which calls raise, \<open>original_isatty\<close> is what the wrapped stream answers.
\<close>

record env =
  raises :: "effect \<Rightarrow> bool"
  original_isatty :: bool

text \<open>
  The object: \<^verbatim>\<open>self._linebits\<close> and \<^verbatim>\<open>self._pending_ship\<close>, and with them the
  calls made so far (\<open>trace\<close>) and the number of \<^verbatim>\<open>_shiplog\<close> calls pushed to the
  owner thread and not run yet (\<open>queued\<close>). \<^verbatim>\<open>self._original\<close> and
  \<^verbatim>\<open>self._call\<close> never change and live in \<open>env\<close>.
\<close>

record console =
  linebits :: "pyval list"
  pending_ship :: bool
  trace :: "effect list"
  queued :: nat

text \<open>\<^verbatim>\<open>__init__\<close>\<close>

definition init :: console where
  "init = \<lparr>linebits = [], pending_ship = False, trace = [], queued = 0\<rparr>"

text \<open>A call that leaves the class is recorded, then raises or returns.\<close>

definition extcall :: "env \<Rightarrow> effect \<Rightarrow> console \<Rightarrow> (error + unit) \<times> console" where
  "extcall env e s =
     (if raises env e then (Inl SinkError, s\<lparr>trace := trace s @ [e]\<rparr>)
      else (Inr (), s\<lparr>trace := trace s @ [e]\<rparr>))"

definition call :: "env \<Rightarrow> pyval \<Rightarrow> console \<Rightarrow> (error + unit) \<times> console" where
  "call env sval s = extcall env (Call sval) s"

definition ba_log :: "env \<Rightarrow> string \<Rightarrow> bool \<Rightarrow> console \<Rightarrow> (error + unit) \<times> console" where
  "ba_log env line to_stdout s = extcall env (Log line to_stdout) s"

text \<open>
  Modelled from the spec: \<^verbatim>\<open>_ba.pushcall\<close> is not in the source. It enqueues the
  operation for the owner thread's run loop and returns at once.
\<close>

definition ba_pushcall :: "env \<Rightarrow> console \<Rightarrow> (error + unit) \<times> console" where
  "ba_pushcall env s =
     (case extcall env Pushcall s of
        (Inl e, s1) \<Rightarrow> (Inl e, s1)
      | (Inr u, s1) \<Rightarrow> (Inr (), s1\<lparr>queued := Suc (queued s1)\<rparr>))"

subsection \<open>Strings\<close>

definition NL :: string where
  "NL = [CHR 0x0A]"

text \<open>\<^verbatim>\<open>str.endswith\<close>\<close>

definition str_endswith :: "string \<Rightarrow> string \<Rightarrow> bool" where
  "str_endswith s suf \<longleftrightarrow>
     length suf \<le> length s \<and> drop (length s - length suf) s = suf"

text \<open>\<^verbatim>\<open>sval.endswith(suf)\<close> for a \<^verbatim>\<open>str\<close> suffix, on any value.\<close>

fun endswith :: "pyval \<Rightarrow> string \<Rightarrow> error + bool" where
  "endswith (PStr s) suf = Inr (str_endswith s suf)"
| "endswith (PBytes b) suf = Inl TypeError"
| "endswith (PInt i) suf = Inl AttributeError"
| "endswith PNone suf = Inl AttributeError"

text \<open>\<^verbatim>\<open>''.join(bits)\<close>: a \<^verbatim>\<open>TypeError\<close> when an item is not a \<^verbatim>\<open>str\<close>.\<close>

fun join :: "pyval list \<Rightarrow> error + string" where
  "join [] = Inr []"
| "join (PStr s # vs) = (case join vs of Inl e \<Rightarrow> Inl e | Inr r \<Rightarrow> Inr (s @ r))"
| "join (v # vs) = Inl TypeError"

subsection \<open>The methods\<close>

text \<open>The first \<^verbatim>\<open>with self._lock:\<close> block of \<^verbatim>\<open>_shiplog\<close>:
  \<open>None\<close> is its early \<^verbatim>\<open>return\<close>.\<close>

definition shiplog_locked :: "console \<Rightarrow> (error + string option) \<times> console" where
  "shiplog_locked s =
     (case join (linebits s) of
        Inl e \<Rightarrow> (Inl e, s)
      | Inr line \<Rightarrow>
          if line = [] then (Inr None, s)
          else (Inr (Some line), s\<lparr>linebits := []\<rparr>))"

definition shiplog :: "env \<Rightarrow> console \<Rightarrow> (error + unit) \<times> console" where
  "shiplog env s =
     (case shiplog_locked s of
        (Inl e, s1) \<Rightarrow> (Inl e, s1)
      | (Inr None, s1) \<Rightarrow> (Inr (), s1)
      | (Inr (Some line), s1) \<Rightarrow>
          ba_log env (if str_endswith line NL then butlast line else line) False s1)"

text \<open>The \<^verbatim>\<open>with self._lock:\<close> block of \<^verbatim>\<open>write\<close>, and \<^verbatim>\<open>write\<close> itself
  (\<open>write\<close> is a command of Isabelle, hence the suffix).\<close>

definition write_locked :: "pyval \<Rightarrow> console \<Rightarrow> console" where
  "write_locked sval s = s\<lparr>linebits := linebits s @ [sval]\<rparr>"

definition write_op :: "env \<Rightarrow> pyval \<Rightarrow> console \<Rightarrow> (error + unit) \<times> console" where
  "write_op env sval s =
     (case call env sval s of
        (Inl e, s1) \<Rightarrow> (Inl e, s1)
      | (Inr u, s1) \<Rightarrow>
          (let s2 = write_locked sval s1 in
           case endswith sval NL of
             Inl e \<Rightarrow> (Inl e, s2)
           | Inr True \<Rightarrow> shiplog env s2
           | Inr False \<Rightarrow> ba_pushcall env s2))"

definition flush :: "env \<Rightarrow> console \<Rightarrow> (error + unit) \<times> console" where
  "flush env s = extcall env OrigFlush s"

definition isatty :: "env \<Rightarrow> console \<Rightarrow> (error + bool) \<times> console" where
  "isatty env s =
     (case extcall env OrigIsatty s of
        (Inl e, s1) \<Rightarrow> (Inl e, s1)
      | (Inr u, s1) \<Rightarrow> (Inr (original_isatty env), s1))"

subsection \<open>The owner thread and runs\<close>

text \<open>
  Modelled from the spec: the run loop of the owner thread is not in the source. One
  turn of it takes the oldest pushed operation, here always \<^verbatim>\<open>self._shiplog\<close>, and
  runs it; with nothing pushed it does nothing.
\<close>

definition tick :: "env \<Rightarrow> console \<Rightarrow> (error + unit) \<times> console" where
  "tick env s =
     (if queued s = 0 then (Inr (), s)
      else shiplog env (s\<lparr>queued := queued s - 1\<rparr>))"

datatype event = Write pyval | Flush | Isatty | Tick

text \<open>An exception goes to the caller of the method; the object stays as the method
  left it.\<close>

fun step :: "env \<Rightarrow> event \<Rightarrow> console \<Rightarrow> console" where
  "step env (Write v) s = snd (write_op env v s)"
| "step env Flush s = snd (flush env s)"
| "step env Isatty s = snd (isatty env s)"
| "step env Tick s = snd (tick env s)"

fun run :: "env \<Rightarrow> event list \<Rightarrow> console \<Rightarrow> console" where
  "run env [] s = s"
| "run env (e # es) s = run env es (step env e s)"

text \<open>The lines handed to \<^verbatim>\<open>_ba.log\<close>, and the \<^verbatim>\<open>to_stdout\<close> flags, in call order.\<close>

fun log_lines :: "effect list \<Rightarrow> string list" where
  "log_lines [] = []"
| "log_lines (Log l b # es) = l # log_lines es"
| "log_lines (e # es) = log_lines es"

fun log_flags :: "effect list \<Rightarrow> bool list" where
  "log_flags [] = []"
| "log_flags (Log l b # es) = b # log_flags es"
| "log_flags (e # es) = log_flags es"

text \<open>An environment in which no call raises.\<close>

definition no_fail :: "env \<Rightarrow> bool" where
  "no_fail env \<longleftrightarrow> (\<forall>e. \<not> raises env e)"

definition quiet :: env where
  "quiet = \<lparr>raises = (\<lambda>e. False), original_isatty = True\<rparr>"

subsection \<open>Lines of a text\<close>

text \<open>
  What the specification calls the terminator-delimited segments of a text: the text is
  cut after every newline, and each piece is given without its newline. \<open>acc\<close> is
  the piece being read. \<open>segments\<close> gives the pieces that were closed by a newline,
  \<open>unterminated\<close> the piece after the last newline.
\<close>

fun segments :: "string \<Rightarrow> string \<Rightarrow> string list" where
  "segments acc [] = []"
| "segments acc (c # cs) =
     (if c = CHR 0x0A then acc # segments [] cs else segments (acc @ [c]) cs)"

fun unterminated :: "string \<Rightarrow> string \<Rightarrow> string" where
  "unterminated acc [] = acc"
| "unterminated acc (c # cs) =
     (if c = CHR 0x0A then unterminated [] cs else unterminated (acc @ [c]) cs)"

section \<open>Auxiliary facts\<close>

lemma no_fail_quiet: "no_fail quiet"
  by (simp add: no_fail_def quiet_def)

lemma join_append_str:
  "join (vs @ [PStr w]) = (case join vs of Inl e \<Rightarrow> Inl e | Inr p \<Rightarrow> Inr (p @ w))"
  by (induction vs rule: join.induct) (auto split: sum.splits)

lemma join_append_other:
  "(\<And>w. v \<noteq> PStr w) \<Longrightarrow> join (vs @ [v]) = Inl TypeError"
  by (induction vs rule: join.induct) (cases v; auto split: sum.splits)+

lemma shiplog_empty: "join (linebits s) = Inr [] \<Longrightarrow> shiplog env s = (Inr (), s)"
  by (simp add: shiplog_def shiplog_locked_def)

lemma shiplog_poisoned: "join (linebits s) = Inl e \<Longrightarrow> shiplog env s = (Inl e, s)"
  by (simp add: shiplog_def shiplog_locked_def)

lemma shiplog_ship:
  "join (linebits s) = Inr line \<Longrightarrow> line \<noteq> [] \<Longrightarrow>
   shiplog env s =
     ba_log env (if str_endswith line NL then butlast line else line) False (s\<lparr>linebits := []\<rparr>)"
  by (simp add: shiplog_def shiplog_locked_def)

lemma run_append: "run env (es @ fs) s = run env fs (run env es s)"
  by (induction es arbitrary: s) auto

lemma extcall_ok:
  "no_fail env \<Longrightarrow> extcall env e s = (Inr (), s\<lparr>trace := trace s @ [e]\<rparr>)"
  by (simp add: extcall_def no_fail_def)

lemma ba_log_ok:
  "no_fail env \<Longrightarrow> ba_log env l b s = (Inr (), s\<lparr>trace := trace s @ [Log l b]\<rparr>)"
  by (simp add: ba_log_def extcall_ok)

lemma write_op_line:
  assumes "no_fail env" and "str_endswith w NL"
  shows "write_op env (PStr w) s =
           shiplog env (s\<lparr>trace := trace s @ [Call (PStr w)], linebits := linebits s @ [PStr w]\<rparr>)"
  using assms by (simp add: write_op_def call_def extcall_ok write_locked_def)

lemma write_op_partial:
  assumes "no_fail env" and "\<not> str_endswith w NL"
  shows "write_op env (PStr w) s =
           (Inr (), s\<lparr>linebits := linebits s @ [PStr w],
                       trace := trace s @ [Call (PStr w), Pushcall],
                       queued := Suc (queued s)\<rparr>)"
  using assms by (simp add: write_op_def call_def extcall_ok write_locked_def ba_pushcall_def)

lemma str_endswith_NL: "str_endswith s NL \<longleftrightarrow> s \<noteq> [] \<and> last s = CHR 0x0A"
proof (cases s rule: rev_cases)
  case Nil
  then show ?thesis by (simp add: str_endswith_def NL_def)
next
  case (snoc ys y)
  then show ?thesis by (auto simp: str_endswith_def NL_def)
qed

lemma log_lines_append: "log_lines (xs @ ys) = log_lines xs @ log_lines ys"
  by (induction xs rule: log_lines.induct) auto

lemma segments_free:
  "CHR 0x0A \<notin> set w \<Longrightarrow> segments acc (w @ cs) = segments (acc @ w) cs"
  by (induction w arbitrary: acc) auto

lemma unterminated_free:
  "CHR 0x0A \<notin> set w \<Longrightarrow> unterminated acc (w @ cs) = unterminated (acc @ w) cs"
  by (induction w arbitrary: acc) auto

text \<open>One write of a string without an interior newline, from a buffer that joins to
  a newline-free string.\<close>

lemma write_op_segments:
  assumes nf: "no_fail env"
    and w: "CHR 0x0A \<notin> set (butlast w)"
    and p: "join (linebits s) = Inr p"
    and pfree: "CHR 0x0A \<notin> set p"
  shows "log_lines (trace (snd (write_op env (PStr w) s))) @ segments (unterminated p w) cs
           = log_lines (trace s) @ segments p (w @ cs)
         \<and> join (linebits (snd (write_op env (PStr w) s))) = Inr (unterminated p w)
         \<and> CHR 0x0A \<notin> set (unterminated p w)"
proof (cases "str_endswith w NL")
  case True
  then obtain w' where w': "w = w' @ [CHR 0x0A]"
    by (cases w rule: rev_cases) (auto simp: str_endswith_NL)
  with w have free: "CHR 0x0A \<notin> set w'" by simp
  have j: "join (linebits s @ [PStr w]) = Inr (p @ w)"
    by (simp add: join_append_str p)
  have e: "str_endswith (p @ w) NL"
    by (simp add: str_endswith_NL w')
  have "write_op env (PStr w) s =
          (Inr (), s\<lparr>trace := trace s @ [Call (PStr w)] @ [Log (p @ w') False], linebits := []\<rparr>)"
    using nf True j e
    by (simp add: write_op_line shiplog_ship [where line = "p @ w"] ba_log_ok w' butlast_append)
  moreover have "segments p (w @ cs) = (p @ w') # segments [] cs"
    using free by (simp add: w' segments_free)
  moreover have "unterminated p w = []"
    using free unterminated_free [of w' p "[CHR 0x0A]"] by (simp add: w')
  ultimately show ?thesis
    by (simp add: log_lines_append)
next
  case False
  with w have free: "CHR 0x0A \<notin> set w"
    by (cases w rule: rev_cases) (auto simp: str_endswith_NL)
  have u: "unterminated p w = p @ w"
    using unterminated_free [OF free, of p "[]"] by simp
  show ?thesis
    using nf False free pfree
    by (simp add: write_op_partial log_lines_append join_append_str p u segments_free)
qed

lemma writes_segments:
  assumes nf: "no_fail env"
    and ws: "\<forall>w \<in> set ws. CHR 0x0A \<notin> set (butlast w)"
    and p: "join (linebits s) = Inr p"
    and pfree: "CHR 0x0A \<notin> set p"
  shows "log_lines (trace (run env (map (\<lambda>w. Write (PStr w)) ws) s))
           = log_lines (trace s) @ segments p (concat ws)
         \<and> join (linebits (run env (map (\<lambda>w. Write (PStr w)) ws) s))
           = Inr (unterminated p (concat ws))"
  using ws p pfree
proof (induction ws arbitrary: s p)
  case Nil
  then show ?case by simp
next
  case (Cons w ws)
  let ?s1 = "snd (write_op env (PStr w) s)"
  from Cons.prems have w: "CHR 0x0A \<notin> set (butlast w)"
    and rest: "\<forall>w \<in> set ws. CHR 0x0A \<notin> set (butlast w)"
    by simp_all
  note one = write_op_segments [OF nf w Cons.prems(2) Cons.prems(3), of "concat ws"]
  from one have j1: "join (linebits ?s1) = Inr (unterminated p w)"
    and f1: "CHR 0x0A \<notin> set (unterminated p w)"
    by simp_all
  note ih = Cons.IH [OF rest j1 f1]
  have u: "unterminated (unterminated p w) (concat ws) = unterminated p (w @ concat ws)"
    using w
  proof (cases "str_endswith w NL")
    case True
    then obtain w' where w': "w = w' @ [CHR 0x0A]"
      by (cases w rule: rev_cases) (auto simp: str_endswith_NL)
    with w have "CHR 0x0A \<notin> set w'" by simp
    then show ?thesis
      using unterminated_free [of w' p "[CHR 0x0A]"]
        unterminated_free [of w' p "CHR 0x0A # concat ws"]
      by (simp add: w')
  next
    case False
    with w have free: "CHR 0x0A \<notin> set w"
      by (cases w rule: rev_cases) (auto simp: str_endswith_NL)
    show ?thesis
      using unterminated_free [OF free, of p "[]"] unterminated_free [OF free, of p "concat ws"]
      by simp
  qed
  from ih one u show ?case by simp
qed

lemma tick_empty:
  assumes "join (linebits s) = Inr []"
  shows "trace (snd (tick env s)) = trace s \<and> linebits (snd (tick env s)) = linebits s"
  using assms by (simp add: tick_def shiplog_empty)

lemma ticks_empty:
  assumes "join (linebits s) = Inr []"
  shows "trace (run env (replicate k Tick) s) = trace s
         \<and> linebits (run env (replicate k Tick) s) = linebits s"
  using assms
proof (induction k arbitrary: s)
  case 0
  then show ?case by simp
next
  case (Suc k)
  from tick_empty [OF Suc.prems, of env]
  have t: "trace (snd (tick env s)) = trace s" and l: "linebits (snd (tick env s)) = linebits s"
    by simp_all
  from Suc.prems l have "join (linebits (snd (tick env s))) = Inr []" by simp
  from Suc.IH [OF this] t l show ?case by simp
qed

lemma unterminated_ends:
  "str_endswith cs NL \<Longrightarrow> unterminated acc cs = []"
proof (induction cs arbitrary: acc)
  case Nil
  then show ?case by (simp add: str_endswith_NL)
next
  case (Cons c cs)
  then show ?case by (cases "cs = []") (auto simp: str_endswith_NL)
qed

lemma str_endswith_snoc: "str_endswith (s @ NL) NL"
  by (simp add: str_endswith_def NL_def)

lemma writes_ticks_lines:
  assumes "no_fail env"
    and "\<forall>w \<in> set ws. CHR 0x0A \<notin> set (butlast w)"
    and "str_endswith (concat ws) NL"
    and "linebits s = []"
  shows "log_lines (trace (run env (map (\<lambda>w. Write (PStr w)) ws @ replicate k Tick) s))
           = log_lines (trace s) @ segments [] (concat ws)"
proof -
  let ?s = "run env (map (\<lambda>w. Write (PStr w)) ws) s"
  have "join (linebits s) = Inr []" and "CHR 0x0A \<notin> set []"
    by (simp_all add: assms(4))
  from writes_segments [OF assms(1) assms(2) this]
  have l: "log_lines (trace ?s) = log_lines (trace s) @ segments [] (concat ws)"
    and j: "join (linebits ?s) = Inr []"
    by (simp_all add: unterminated_ends [OF assms(3)])
  from ticks_empty [OF j, of env k] l show ?thesis
    by (simp add: run_append)
qed

lemma write_line_ticks:
  assumes "no_fail env" and "str_endswith w NL" and "linebits s = []"
  shows "log_lines (trace (run env (Write (PStr w) # replicate k Tick) s))
           = log_lines (trace s) @ [butlast w]"
proof -
  let ?s = "snd (write_op env (PStr w) s)"
  from assms(2) have ne: "w \<noteq> []" by (simp add: str_endswith_NL)
  have j0: "join (linebits s @ [PStr w]) = Inr w" by (simp add: assms(3))
  have "write_op env (PStr w) s =
          (Inr (), s\<lparr>trace := trace s @ [Call (PStr w)] @ [Log (butlast w) False], linebits := []\<rparr>)"
    using assms(1,2) ne j0
    by (simp add: write_op_line shiplog_ship [where line = w] ba_log_ok)
  then have t: "trace ?s = trace s @ [Call (PStr w), Log (butlast w) False]"
    and j: "join (linebits ?s) = Inr []"
    by simp_all
  from ticks_empty [OF j, of env k] t show ?thesis by (simp add: log_lines_append)
qed

lemma join_map_PStr: "join (map PStr fs) = Inr (concat fs)"
  by (induction fs) auto

lemma log_flags_append: "log_flags (xs @ ys) = log_flags xs @ log_flags ys"
  by (induction xs rule: log_flags.induct) auto

lemma shiplog_cases:
  "shiplog env s = (Inl TypeError, s) \<and> join (linebits s) = Inl TypeError
   \<or> shiplog env s = (Inr (), s) \<and> join (linebits s) = Inr []
   \<or> (\<exists>line. join (linebits s) = Inr line \<and> line \<noteq> [] \<and>
        shiplog env s =
          (if raises env (Log (if str_endswith line NL then butlast line else line) False)
           then Inl SinkError else Inr (),
           s\<lparr>linebits := [],
              trace := trace s @ [Log (if str_endswith line NL then butlast line else line) False]\<rparr>))"
proof (cases "join (linebits s)")
  case (Inl e)
  have "e = TypeError" if "join vs = Inl e" for vs
    using that by (induction vs rule: join.induct) (auto split: sum.splits)
  with Inl show ?thesis by (simp add: shiplog_poisoned)
next
  case (Inr line)
  then show ?thesis
    by (cases "line = []")
      (simp_all add: shiplog_empty shiplog_ship ba_log_def extcall_def)
qed

lemma shiplog_frame:
  "pending_ship (snd (shiplog env s)) = pending_ship s
   \<and> queued (snd (shiplog env s)) = queued s
   \<and> (\<exists>n. log_flags (trace (snd (shiplog env s))) = log_flags (trace s) @ replicate n False)"
proof -
  have r: "\<exists>n. fs @ [False] = fs @ replicate n False" for fs :: "bool list"
    by (rule exI [of _ "Suc 0"]) simp
  have z: "\<exists>n. fs = fs @ replicate n False" for fs :: "bool list"
    by (rule exI [of _ 0]) simp
  have o: "\<exists>n. [False] = replicate n False"
    by (rule exI [of _ "Suc 0"]) simp
  from shiplog_cases [of env s] show ?thesis
    by (auto simp: log_flags_append r z o)
qed

lemma write_op_raise:
  "raises env (Call v) \<Longrightarrow>
   write_op env v s = (Inl SinkError, s\<lparr>trace := trace s @ [Call v]\<rparr>)"
  by (simp add: write_op_def call_def extcall_def)

lemma write_op_return:
  "\<not> raises env (Call v) \<Longrightarrow>
   write_op env v s =
     (case endswith v NL of
        Inl e \<Rightarrow> (Inl e, s\<lparr>trace := trace s @ [Call v], linebits := linebits s @ [v]\<rparr>)
      | Inr True \<Rightarrow> shiplog env (s\<lparr>trace := trace s @ [Call v], linebits := linebits s @ [v]\<rparr>)
      | Inr False \<Rightarrow> ba_pushcall env (s\<lparr>trace := trace s @ [Call v], linebits := linebits s @ [v]\<rparr>))"
  by (simp add: write_op_def call_def extcall_def write_locked_def Let_def
      split: sum.split bool.split)

lemma ba_pushcall_frame:
  "pending_ship (snd (ba_pushcall env s)) = pending_ship s
   \<and> linebits (snd (ba_pushcall env s)) = linebits s
   \<and> trace (snd (ba_pushcall env s)) = trace s @ [Pushcall]"
  by (simp add: ba_pushcall_def extcall_def)

lemma write_op_frame:
  "pending_ship (snd (write_op env v s)) = pending_ship s
   \<and> (\<exists>rest. trace (snd (write_op env v s)) = trace s @ Call v # rest
        \<and> (\<exists>n. log_flags rest = replicate n False))"
proof (cases "raises env (Call v)")
  case True
  have "\<exists>n. log_flags [] = replicate n False" by simp
  with True show ?thesis by (simp add: write_op_raise)
next
  case False
  let ?s2 = "s\<lparr>trace := trace s @ [Call v], linebits := linebits s @ [v]\<rparr>"
  show ?thesis
  proof (cases "endswith v NL")
    case (Inl e)
    have "\<exists>n. log_flags [] = replicate n False" by simp
    with False Inl show ?thesis by (simp add: write_op_return)
  next
    case (Inr b)
    show ?thesis
    proof (cases b)
      case True
      from shiplog_cases [of env ?s2] shiplog_frame [of env ?s2]
      have "\<exists>rest. trace (snd (shiplog env ?s2)) = trace s @ Call v # rest
              \<and> (\<exists>n. log_flags rest = replicate n False)"
      proof (elim disjE conjE exE)
        fix line
        assume "shiplog env ?s2 =
          (if raises env (Log (if str_endswith line NL then butlast line else line) False)
           then Inl SinkError else Inr (),
           ?s2\<lparr>linebits := [],
              trace := trace ?s2 @ [Log (if str_endswith line NL then butlast line else line) False]\<rparr>)"
        then have "trace (snd (shiplog env ?s2)) =
            trace s @ Call v # [Log (if str_endswith line NL then butlast line else line) False]"
          by simp
        moreover have "\<exists>n. log_flags [Log (if str_endswith line NL then butlast line else line) False]
            = replicate n False"
          by (rule exI [of _ "Suc 0"]) simp
        ultimately show ?thesis by blast
      next
        assume "shiplog env ?s2 = (Inl TypeError, ?s2)"
        then have "trace (snd (shiplog env ?s2)) = trace s @ Call v # []" by simp
        moreover have "\<exists>n. log_flags [] = replicate n False" by simp
        ultimately show ?thesis by blast
      next
        assume "shiplog env ?s2 = (Inr (), ?s2)"
        then have "trace (snd (shiplog env ?s2)) = trace s @ Call v # []" by simp
        moreover have "\<exists>n. log_flags [] = replicate n False" by simp
        ultimately show ?thesis by blast
      qed
      with False Inr True shiplog_frame [of env ?s2] show ?thesis
        by (simp add: write_op_return)
    next
      case F: False
      have "\<exists>n. log_flags [Pushcall] = replicate n False" by simp
      with False Inr F ba_pushcall_frame [of env ?s2] show ?thesis
        by (simp add: write_op_return)
    qed
  qed
qed

lemma step_frame:
  "pending_ship (step env ev s) = pending_ship s
   \<and> (\<exists>n. log_flags (trace (step env ev s)) = log_flags (trace s) @ replicate n False)"
proof (cases ev)
  case (Write v)
  from write_op_frame [of env v s] obtain rest n where
    p: "pending_ship (snd (write_op env v s)) = pending_ship s"
    and t: "trace (snd (write_op env v s)) = trace s @ Call v # rest"
    and f: "log_flags rest = replicate n False"
    by blast
  from t f have "log_flags (trace (snd (write_op env v s))) = log_flags (trace s) @ replicate n False"
    by (simp add: log_flags_append)
  with p Write show ?thesis by auto
next
  case Flush
  have "\<exists>n. fs = fs @ replicate n False" for fs :: "bool list"
    by (rule exI [of _ 0]) simp
  with Flush show ?thesis by (simp add: flush_def extcall_def log_flags_append)
next
  case Isatty
  have "\<exists>n. fs = fs @ replicate n False" for fs :: "bool list"
    by (rule exI [of _ 0]) simp
  with Isatty show ?thesis by (simp add: isatty_def extcall_def log_flags_append)
next
  case Tick
  have z: "\<exists>n. fs = fs @ replicate n False" for fs :: "bool list"
    by (rule exI [of _ 0]) simp
  show ?thesis
  proof (cases "queued s = 0")
    case True
    with Tick z show ?thesis by (simp add: tick_def)
  next
    case False
    with Tick shiplog_frame [of env "s\<lparr>queued := queued s - 1\<rparr>"] show ?thesis
      by (simp add: tick_def)
  qed
qed

lemma run_frame:
  "pending_ship (run env evs s) = pending_ship s
   \<and> (\<exists>n. log_flags (trace (run env evs s)) = log_flags (trace s) @ replicate n False)"
proof (induction evs arbitrary: s)
  case Nil
  have "\<exists>n. log_flags (trace s) = log_flags (trace s) @ replicate n False"
    by (rule exI [of _ 0]) simp
  then show ?case by simp
next
  case (Cons ev evs)
  from step_frame [of env ev s] obtain n where
    p: "pending_ship (step env ev s) = pending_ship s"
    and f: "log_flags (trace (step env ev s)) = log_flags (trace s) @ replicate n False"
    by blast
  from Cons.IH [of "step env ev s"] obtain m where
    p': "pending_ship (run env evs (step env ev s)) = pending_ship (step env ev s)"
    and f': "log_flags (trace (run env evs (step env ev s)))
              = log_flags (trace (step env ev s)) @ replicate m False"
    by blast
  from f f' have "log_flags (trace (run env (ev # evs) s))
      = log_flags (trace s) @ replicate (n + m) False"
    by (simp add: replicate_add)
  with p p' show ?case by auto
qed

lemma concat_not_endswith:
  "\<forall>w \<in> set ws. \<not> str_endswith w NL \<Longrightarrow> \<not> str_endswith (concat ws) NL"
proof (induction ws)
  case Nil
  then show ?case by (simp add: str_endswith_NL)
next
  case (Cons w ws)
  then show ?case by (cases "concat ws = []") (auto simp: str_endswith_NL)
qed

lemma writes_partial:
  assumes "no_fail env" and "\<forall>w \<in> set ws. \<not> str_endswith w NL"
  shows "linebits (run env (map (\<lambda>w. Write (PStr w)) ws) s) = linebits s @ map PStr ws
       \<and> queued (run env (map (\<lambda>w. Write (PStr w)) ws) s) = queued s + length ws
       \<and> log_lines (trace (run env (map (\<lambda>w. Write (PStr w)) ws) s)) = log_lines (trace s)"
  using assms(2)
proof (induction ws arbitrary: s)
  case Nil
  then show ?case by simp
next
  case (Cons w ws)
  then have w: "\<not> str_endswith w NL" and ws: "\<forall>w \<in> set ws. \<not> str_endswith w NL"
    by simp_all
  from Cons.IH [OF ws, of "snd (write_op env (PStr w) s)"] show ?case
    by (simp add: write_op_partial [OF assms(1) w] log_lines_append)
qed

lemma partial_writes_ticks:
  assumes nf: "no_fail env" and ws: "\<forall>w \<in> set ws. \<not> str_endswith w NL"
    and empty: "linebits s = []"
  shows "log_lines (trace (run env (map (\<lambda>w. Write (PStr w)) ws @ replicate k Tick) s))
           = log_lines (trace s) @ (if concat ws = [] \<or> k = 0 then [] else [concat ws])"
proof -
  let ?s1 = "run env (map (\<lambda>w. Write (PStr w)) ws) s"
  from writes_partial [OF nf ws, of s] empty
  have l: "linebits ?s1 = map PStr ws" and q: "queued ?s1 = queued s + length ws"
    and t: "log_lines (trace ?s1) = log_lines (trace s)"
    by simp_all
  from l have j: "join (linebits ?s1) = Inr (concat ws)" by (simp add: join_map_PStr)
  show ?thesis
  proof (cases "concat ws = []")
    case True
    with j have "join (linebits ?s1) = Inr []" by simp
    from ticks_empty [OF this, of env k] t True show ?thesis
      by (simp add: run_append)
  next
    case False
    then have "ws \<noteq> []" by auto
    with q have q1: "queued ?s1 \<noteq> 0" by simp
    show ?thesis
    proof (cases k)
      case 0
      with t show ?thesis by (simp add: run_append)
    next
      case (Suc k')
      let ?s2 = "?s1\<lparr>queued := queued ?s1 - 1\<rparr>"
      have j2: "join (linebits ?s2) = Inr (concat ws)" using j by simp
      have "tick env ?s1 = shiplog env ?s2" using q1 by (simp add: tick_def)
      also have "\<dots> = (Inr (), ?s2\<lparr>linebits := [], trace := trace ?s1 @ [Log (concat ws) False]\<rparr>)"
        unfolding shiplog_ship [OF j2 False]
        using concat_not_endswith [OF ws] by (simp add: ba_log_ok [OF nf])
      finally have tk: "tick env ?s1 =
          (Inr (), ?s2\<lparr>linebits := [], trace := trace ?s1 @ [Log (concat ws) False]\<rparr>)" .
      then have "join (linebits (snd (tick env ?s1))) = Inr []" by simp
      from ticks_empty [OF this, of env k'] tk t False Suc show ?thesis
        by (simp add: run_append log_lines_append)
    qed
  qed
qed

section \<open>The claims\<close>

subsection \<open>C1: shipped lines and the segments of the written text\<close>

text \<open>
  C1, as amended. Take a sequence of \<^verbatim>\<open>write\<close> calls on a stream with nothing
  buffered, with no call raising, in which every written string has a newline at most
  as its last character, and whose concatenation ends in a newline. Then \<^verbatim>\<open>_ba.log\<close>
  is called exactly once per newline-delimited segment of the concatenation, in segment
  order, each line being its segment without the newline; the pushed flushes that run
  afterwards add no call. A single \<^verbatim>\<open>write\<close> of a string that ends in a newline
  yields exactly one line, the string without its last character, wherever else the
  string has newlines.
\<close>

theorem lines_per_terminated_write:
  assumes "no_fail env"
    and "linebits s = []"
    and "\<forall>w \<in> set ws. CHR 0x0A \<notin> set (butlast w)"
    and "str_endswith (concat ws) NL"
    and "str_endswith w NL"
  shows "log_lines (trace (run env (map (\<lambda>w. Write (PStr w)) ws @ replicate k Tick) s))
           = log_lines (trace s) @ segments [] (concat ws)
         \<and> log_lines (trace (run env (Write (PStr w) # replicate k Tick) s))
           = log_lines (trace s) @ [butlast w]"
  using writes_ticks_lines [OF assms(1,3,4,2)] write_line_ticks [OF assms(1,5,2)] by simp

text \<open>The theorem at \<^verbatim>\<open>write("ab"); write("c\n"); write("\n"); write("d\n")\<close> and at
  \<^verbatim>\<open>write("x\ny\n")\<close> on a fresh stream, each followed by one turn of the owner
  thread.\<close>

theorem lines_per_terminated_write_witness:
  "log_lines (trace (run quiet [Write (PStr ''ab''), Write (PStr (''c'' @ NL)), Write (PStr NL),
      Write (PStr (''d'' @ NL)), Tick] init)) = [''abc'', [], ''d'']
   \<and> log_lines (trace (run quiet [Write (PStr (''x'' @ NL @ ''y'' @ NL)), Tick] init))
       = [''x'' @ NL @ ''y'']"
proof -
  let ?ws = "[''ab'', ''c'' @ NL, NL, ''d'' @ NL]"
  let ?w = "''x'' @ NL @ ''y'' @ NL"
  have i: "linebits init = []" and t: "trace init = []" by (simp_all add: init_def)
  have a: "\<forall>w \<in> set ?ws. CHR 0x0A \<notin> set (butlast w)" by (simp add: NL_def)
  have b: "str_endswith (concat ?ws) NL" by (simp add: str_endswith_def NL_def)
  have c: "str_endswith ?w NL" by (simp add: str_endswith_def NL_def)
  from lines_per_terminated_write [OF no_fail_quiet i a b c, of 1] t show ?thesis
    by (simp add: NL_def)
qed

text \<open>Against C1 as stated: \<^verbatim>\<open>write("x\ny\n")\<close> has the two segments \<^verbatim>\<open>x\<close> and
  \<^verbatim>\<open>y\<close>, and ships the one line \<^verbatim>\<open>x\ny\<close>.\<close>

theorem interior_newline_one_line:
  "log_lines (trace (run quiet [Write (PStr (''x'' @ NL @ ''y'' @ NL))] init)) = [''x'' @ NL @ ''y'']
   \<and> segments [] (''x'' @ NL @ ''y'' @ NL) = [''x'', ''y'']
   \<and> log_lines (trace (run quiet [Write (PStr (''x'' @ NL @ ''y'' @ NL))] init))
       \<noteq> segments [] (''x'' @ NL @ ''y'' @ NL)"
proof -
  have i: "linebits init = []" and t: "trace init = []" by (simp_all add: init_def)
  have "str_endswith (''x'' @ NL @ ''y'' @ NL) NL" by (simp add: str_endswith_def NL_def)
  from write_line_ticks [OF no_fail_quiet this i, of 0] t show ?thesis
    by (simp add: NL_def)
qed

subsection \<open>C2: one pushed flush per unterminated write\<close>

text \<open>
  C2, as amended. \<^verbatim>\<open>_pending_ship\<close> is set to false by \<^verbatim>\<open>__init__\<close> and no method
  reads or changes it. A \<^verbatim>\<open>write\<close> of a string that does not end in a newline pushes
  a flush whether or not one is pushed already, so \<open>n\<close> such writes before the owner
  thread runs leave \<open>n\<close> more flushes pushed, one per write. On a stream with nothing
  buffered, of these flushes only the first to run calls \<^verbatim>\<open>_ba.log\<close>, with the
  whole concatenation as one line (and none does when the concatenation is empty).
\<close>

theorem flush_per_partial_write:
  assumes "no_fail env"
    and "\<forall>w \<in> set ws. \<not> str_endswith w NL"
  shows "pending_ship (run env evs s) = pending_ship s
       \<and> queued (run env (map (\<lambda>w. Write (PStr w)) ws) s) = queued s + length ws
       \<and> (linebits s = [] \<longrightarrow>
            log_lines (trace (run env (map (\<lambda>w. Write (PStr w)) ws @ replicate k Tick) s))
              = log_lines (trace s) @ (if concat ws = [] \<or> k = 0 then [] else [concat ws]))"
  using run_frame [of env evs s] writes_partial [OF assms, of s] partial_writes_ticks [OF assms, of s k]
  by simp

text \<open>The theorem at \<^verbatim>\<open>write("a"); write("b")\<close> on a fresh stream, then two turns of
  the owner thread.\<close>

theorem flush_per_partial_write_witness:
  "\<not> pending_ship (run quiet [Write (PStr ''a''), Write (PStr ''b''), Tick, Tick] init)
   \<and> queued (run quiet [Write (PStr ''a''), Write (PStr ''b'')] init) = 2
   \<and> log_lines (trace (run quiet [Write (PStr ''a''), Write (PStr ''b''), Tick, Tick] init))
       = [''ab'']"
proof -
  let ?ws = "[''a'', ''b'']"
  have a: "\<forall>w \<in> set ?ws. \<not> str_endswith w NL" by (simp add: str_endswith_def NL_def)
  from flush_per_partial_write [OF no_fail_quiet a,
      of "[Write (PStr ''a''), Write (PStr ''b''), Tick, Tick]" init "Suc (Suc 0)"]
  show ?thesis by (simp add: init_def)
qed

text \<open>Against C2 as stated: after \<^verbatim>\<open>write("a")\<close> a flush is pushed and the flag is
  still false, and after \<^verbatim>\<open>write("a"); write("b")\<close> two flushes are pushed.\<close>

theorem two_partial_writes_two_flushes:
  "queued (run quiet [Write (PStr ''a'')] init) = 1
   \<and> \<not> pending_ship (run quiet [Write (PStr ''a'')] init)
   \<and> \<not> queued (run quiet [Write (PStr ''a''), Write (PStr ''b'')] init) \<le> 1"
proof -
  have a: "\<not> str_endswith ''a'' NL" and b: "\<not> str_endswith ''b'' NL"
    by (simp_all add: str_endswith_def NL_def)
  show ?thesis
    by (simp add: write_op_partial [OF no_fail_quiet a] write_op_partial [OF no_fail_quiet b] init_def)
qed

subsection \<open>C3: when the flush returns early\<close>

text \<open>
  C3, as amended. With strings as pending fragments, the locked block of the flush
  returns early, leaving \<^verbatim>\<open>_linebits\<close> as it is, exactly when the concatenation of
  the fragments is the empty string (no fragment, or empty fragments only); the whole
  flush is then a no-op. Otherwise the block yields the concatenation and sets
  \<^verbatim>\<open>_linebits\<close> to the empty list, and \<^verbatim>\<open>_linebits\<close> is empty after the flush,
  whether \<^verbatim>\<open>_ba.log\<close> raises or not.
\<close>

theorem flush_clears_nonempty_text:
  assumes "linebits s = map PStr fs"
  shows "(concat fs = [] \<longrightarrow>
            shiplog_locked s = (Inr None, s) \<and> shiplog env s = (Inr (), s))
       \<and> (concat fs \<noteq> [] \<longrightarrow>
            shiplog_locked s = (Inr (Some (concat fs)), s\<lparr>linebits := []\<rparr>)
            \<and> linebits (snd (shiplog env s)) = [])"
proof -
  from assms have j: "join (linebits s) = Inr (concat fs)"
    by (simp add: join_map_PStr)
  have "linebits (snd (shiplog env s)) = []" if "concat fs \<noteq> []"
    unfolding shiplog_ship [OF j that] by (simp add: ba_log_def extcall_def)
  with j show ?thesis
    by (simp add: shiplog_locked_def shiplog_empty)
qed

text \<open>The theorem with the fragments \<^verbatim>\<open>""\<close>, \<^verbatim>\<open>""\<close> and with \<^verbatim>\<open>"a"\<close>, \<^verbatim>\<open>""\<close>.\<close>

theorem flush_clears_nonempty_text_witness:
  "shiplog quiet (init\<lparr>linebits := [PStr [], PStr []]\<rparr>)
     = (Inr (), init\<lparr>linebits := [PStr [], PStr []]\<rparr>)
   \<and> shiplog_locked (init\<lparr>linebits := [PStr ''a'', PStr []]\<rparr>)
     = (Inr (Some ''a''), init\<lparr>linebits := []\<rparr>)
   \<and> linebits (snd (shiplog quiet (init\<lparr>linebits := [PStr ''a'', PStr []]\<rparr>))) = []"
  using flush_clears_nonempty_text [of "init\<lparr>linebits := [PStr [], PStr []]\<rparr>" "[[], []]" quiet]
    flush_clears_nonempty_text [of "init\<lparr>linebits := [PStr ''a'', PStr []]\<rparr>" "[''a'', []]" quiet]
  by simp

text \<open>Against C3 as stated: after \<^verbatim>\<open>write("")\<close> the pending fragments are the list
  with one empty string, not the empty list; the flush returns early all the same, and
  the list is not empty after it.\<close>

theorem empty_fragment_stays:
  "linebits (run quiet [Write (PStr [])] init) = [PStr []]
   \<and> fst (shiplog_locked (run quiet [Write (PStr [])] init)) = Inr None
   \<and> linebits (snd (shiplog quiet (run quiet [Write (PStr [])] init))) \<noteq> []"
proof -
  have a: "\<not> str_endswith [] NL" by (simp add: str_endswith_def NL_def)
  show ?thesis
    by (simp add: write_op_partial [OF no_fail_quiet a] init_def shiplog_def shiplog_locked_def)
qed

subsection \<open>C4: two call sequences\<close>

text \<open>
  C4. On a stream with nothing buffered and with no call raising,
  \<^verbatim>\<open>write("a"); write("b"); write("c\n")\<close> makes exactly one call of \<^verbatim>\<open>_ba.log\<close>,
  with the line \<^verbatim>\<open>abc\<close>, and \<^verbatim>\<open>write("x\n"); write("y\n")\<close> makes exactly two,
  \<^verbatim>\<open>x\<close> then \<^verbatim>\<open>y\<close>; any number of turns of the owner thread afterwards adds none.
\<close>

theorem abc_and_xy:
  assumes "no_fail env" and "linebits s = []"
  shows "log_lines (trace (run env ([Write (PStr ''a''), Write (PStr ''b''), Write (PStr (''c'' @ NL))]
            @ replicate k Tick) s)) = log_lines (trace s) @ [''abc'']
       \<and> log_lines (trace (run env ([Write (PStr (''x'' @ NL)), Write (PStr (''y'' @ NL))]
            @ replicate k Tick) s)) = log_lines (trace s) @ [''x'', ''y'']"
proof -
  let ?abc = "[''a'', ''b'', ''c'' @ NL]" and ?xy = "[''x'' @ NL, ''y'' @ NL]"
  have a: "\<forall>w \<in> set ?abc. CHR 0x0A \<notin> set (butlast w)"
    and b: "str_endswith (concat ?abc) NL"
    and c: "\<forall>w \<in> set ?xy. CHR 0x0A \<notin> set (butlast w)"
    and d: "str_endswith (concat ?xy) NL"
    by (simp_all add: str_endswith_def NL_def)
  from writes_ticks_lines [OF assms(1) a b assms(2), of k]
    writes_ticks_lines [OF assms(1) c d assms(2), of k]
  show ?thesis by (simp add: NL_def)
qed

text \<open>The theorem on the fresh stream, with two turns of the owner thread and with
  none.\<close>

theorem abc_and_xy_witness:
  "log_lines (trace (run quiet [Write (PStr ''a''), Write (PStr ''b''), Write (PStr (''c'' @ NL)),
      Tick, Tick] init)) = [''abc'']
   \<and> log_lines (trace (run quiet [Write (PStr (''x'' @ NL)), Write (PStr (''y'' @ NL))] init))
       = [''x'', ''y'']"
proof -
  have i: "linebits init = []" and t: "trace init = []" by (simp_all add: init_def)
  from abc_and_xy [OF no_fail_quiet i, of "Suc (Suc 0)"] abc_and_xy [OF no_fail_quiet i, of 0] t
  show ?thesis by simp
qed

subsection \<open>C5: flushing nothing\<close>

text \<open>
  C5. With no pending fragment the flush returns normally, changes nothing and calls
  nothing, \<^verbatim>\<open>_ba.log\<close> included. When what is pending joins to the empty string,
  \<^verbatim>\<open>write("")\<close> and any number of turns of the owner thread after it make no call of
  \<^verbatim>\<open>_ba.log\<close>, whichever calls raise. A second flush right after a flush changes
  nothing; on an empty buffer two flushes are one flush, which is no flush.
\<close>

theorem flush_empty_is_noop:
  "(linebits s = [] \<longrightarrow>
      shiplog env s = (Inr (), s) \<and> shiplog env (snd (shiplog env s)) = shiplog env s)
   \<and> (join (linebits s) = Inr [] \<longrightarrow>
        log_lines (trace (run env (Write (PStr []) # replicate k Tick) s)) = log_lines (trace s))
   \<and> snd (shiplog env (snd (shiplog env s))) = snd (shiplog env s)"
proof -
  have one: "shiplog env s = (Inr (), s) \<and> shiplog env (snd (shiplog env s)) = shiplog env s"
    if "linebits s = []"
    using that by (simp add: shiplog_empty)
  have two: "log_lines (trace (run env (Write (PStr []) # replicate k Tick) s)) = log_lines (trace s)"
    if j: "join (linebits s) = Inr []"
  proof -
    let ?s1 = "snd (write_op env (PStr []) s)"
    have "log_lines (trace ?s1) = log_lines (trace s) \<and> join (linebits ?s1) = Inr []"
    proof (cases "raises env (Call (PStr []))")
      case True
      with j show ?thesis by (simp add: write_op_raise log_lines_append)
    next
      case False
      with j show ?thesis
        by (simp add: write_op_return str_endswith_def NL_def ba_pushcall_def extcall_def
            log_lines_append join_append_str)
    qed
    with ticks_empty [of ?s1 env k] show ?thesis by simp
  qed
  have three: "snd (shiplog env (snd (shiplog env s))) = snd (shiplog env s)"
    using shiplog_cases [of env s]
  proof (elim disjE conjE exE)
    fix line
    assume "shiplog env s =
      (if raises env (Log (if str_endswith line NL then butlast line else line) False)
       then Inl SinkError else Inr (),
       s\<lparr>linebits := [],
          trace := trace s @ [Log (if str_endswith line NL then butlast line else line) False]\<rparr>)"
    then show ?thesis by (simp add: shiplog_empty)
  qed (simp_all add: shiplog_poisoned shiplog_empty)
  from one two three show ?thesis by blast
qed

text \<open>The theorem on the fresh stream: a flush, and \<^verbatim>\<open>write("")\<close> with the pushed
  flush run after it.\<close>

theorem flush_empty_is_noop_witness:
  "shiplog quiet init = (Inr (), init)
   \<and> log_lines (trace (run quiet [Write (PStr []), Tick] init)) = []"
  using flush_empty_is_noop [of init quiet 1] by (simp add: init_def)

subsection \<open>C6: the shipped line\<close>

text \<open>
  C6. When the pending fragments are strings whose concatenation is not empty, the flush
  calls \<^verbatim>\<open>_ba.log\<close> once, with the concatenation less its last character when it ends
  in a newline and with the concatenation itself otherwise. A concatenation that ends
  in two newlines ships with one of them removed, so the line still ends in a newline.
\<close>

theorem shipped_line_strips_one_terminator:
  assumes "linebits s = map PStr fs" and "concat fs \<noteq> []"
  shows "(str_endswith (concat fs) NL \<longrightarrow>
            trace (snd (shiplog env s)) = trace s @ [Log (butlast (concat fs)) False])
       \<and> (\<not> str_endswith (concat fs) NL \<longrightarrow>
            trace (snd (shiplog env s)) = trace s @ [Log (concat fs) False])
       \<and> (concat fs = l @ NL @ NL \<longrightarrow>
            trace (snd (shiplog env s)) = trace s @ [Log (l @ NL) False]
            \<and> str_endswith (l @ NL) NL)"
proof -
  from assms(1) have j: "join (linebits s) = Inr (concat fs)"
    by (simp add: join_map_PStr)
  have t: "trace (snd (shiplog env s)) =
      trace s @ [Log (if str_endswith (concat fs) NL then butlast (concat fs) else concat fs) False]"
    unfolding shiplog_ship [OF j assms(2)] by (simp add: ba_log_def extcall_def)
  have "butlast (l @ NL @ NL) = l @ NL" and "str_endswith (l @ NL @ NL) NL"
    by (simp_all add: NL_def butlast_append str_endswith_def)
  with t show ?thesis by (simp add: str_endswith_snoc)
qed

text \<open>The theorem with the fragments \<^verbatim>\<open>"a"\<close>, \<^verbatim>\<open>"b\n\n"\<close> and with \<^verbatim>\<open>"a"\<close>,
  \<^verbatim>\<open>"b"\<close>.\<close>

theorem shipped_line_strips_one_terminator_witness:
  "trace (snd (shiplog quiet (init\<lparr>linebits := [PStr ''a'', PStr (''b'' @ NL @ NL)]\<rparr>)))
     = [Log (''ab'' @ NL) False]
   \<and> trace (snd (shiplog quiet (init\<lparr>linebits := [PStr ''a'', PStr ''b'']\<rparr>)))
     = [Log ''ab'' False]"
proof -
  have a: "\<not> str_endswith ''ab'' NL" by (simp add: str_endswith_def NL_def)
  from shipped_line_strips_one_terminator
    [where s = "init\<lparr>linebits := [PStr ''a'', PStr (''b'' @ NL @ NL)]\<rparr>"
      and fs = "[''a'', ''b'' @ NL @ NL]" and l = "''ab''" and env = quiet]
    shipped_line_strips_one_terminator
    [where s = "init\<lparr>linebits := [PStr ''a'', PStr ''b'']\<rparr>"
      and fs = "[''a'', ''b'']" and l = "[]" and env = quiet] a
  show ?thesis by (simp add: init_def)
qed

subsection \<open>C7: the passthrough comes first\<close>

text \<open>
  C7. On every \<^verbatim>\<open>write(text)\<close> with a string, whatever the state and whichever calls
  raise, the first call made is \<^verbatim>\<open>self._call(text)\<close> with the same string; every
  other call of this write, \<^verbatim>\<open>_ba.log\<close> among them, comes after it. It comes before
  the buffer is touched: when \<^verbatim>\<open>self._call\<close> raises, nothing else has changed. It is
  made also when the shipping that follows fails, in \<^verbatim>\<open>join\<close> or in \<^verbatim>\<open>_ba.log\<close>.
\<close>

theorem passthrough_first:
  "(\<exists>rest. trace (snd (write_op env (PStr t) s)) = trace s @ Call (PStr t) # rest)
   \<and> (raises env (Call (PStr t)) \<longrightarrow>
        write_op env (PStr t) s = (Inl SinkError, s\<lparr>trace := trace s @ [Call (PStr t)]\<rparr>))
   \<and> (\<forall>e. fst (write_op env (PStr t) s) = Inl e \<longrightarrow>
        Call (PStr t) \<in> set (trace (snd (write_op env (PStr t) s))))"
proof -
  from write_op_frame [of env "PStr t" s] obtain rest where
    r: "trace (snd (write_op env (PStr t) s)) = trace s @ Call (PStr t) # rest"
    by blast
  then have "Call (PStr t) \<in> set (trace (snd (write_op env (PStr t) s)))" by simp
  with r show ?thesis by (auto simp: write_op_raise)
qed

text \<open>The theorem at \<^verbatim>\<open>write("x\n")\<close> on a fresh stream: with every call raising, and
  with only \<^verbatim>\<open>_ba.log\<close> raising.\<close>

theorem passthrough_first_witness:
  "write_op \<lparr>raises = (\<lambda>e. True), original_isatty = True\<rparr> (PStr (''x'' @ NL)) init
     = (Inl SinkError, init\<lparr>trace := [Call (PStr (''x'' @ NL))]\<rparr>)
   \<and> fst (write_op \<lparr>raises = (\<lambda>e. e = Log ''x'' False), original_isatty = True\<rparr>
        (PStr (''x'' @ NL)) init) = Inl SinkError
   \<and> Call (PStr (''x'' @ NL)) \<in> set (trace (snd
        (write_op \<lparr>raises = (\<lambda>e. e = Log ''x'' False), original_isatty = True\<rparr>
          (PStr (''x'' @ NL)) init)))"
proof -
  let ?env = "\<lparr>raises = (\<lambda>e. e = Log ''x'' False), original_isatty = True\<rparr>"
  have f: "fst (write_op ?env (PStr (''x'' @ NL)) init) = Inl SinkError"
    by (simp add: write_op_return str_endswith_def NL_def shiplog_def shiplog_locked_def
        ba_log_def extcall_def init_def)
  from passthrough_first [of "\<lparr>raises = (\<lambda>e. True), original_isatty = True\<rparr>" "''x'' @ NL" init]
    passthrough_first [of ?env "''x'' @ NL" init] f
  show ?thesis by (simp add: init_def)
qed

subsection \<open>C8: the flag of every shipped line\<close>

text \<open>
  C8. Whatever methods are called on a stream since its creation, with whatever
  arguments, and whichever calls raise, every call of \<^verbatim>\<open>_ba.log\<close> made passes
  \<^verbatim>\<open>to_stdout=False\<close>; from any state on, the calls a run adds all do.
\<close>

theorem log_never_to_stdout:
  "(\<exists>n. log_flags (trace (run env evs init)) = replicate n False)
   \<and> (\<exists>n. log_flags (trace (run env evs s)) = log_flags (trace s) @ replicate n False)"
  using run_frame [of env evs init] run_frame [of env evs s] by (simp add: init_def)

text \<open>The theorem at \<^verbatim>\<open>write("x\n"); write("y")\<close> on a fresh stream and a turn of the
  owner thread: two lines are shipped, each with the flag false.\<close>

theorem log_never_to_stdout_witness:
  "log_lines (trace (run quiet [Write (PStr [CHR ''x'', CHR 0x0A]), Write (PStr ''y''), Tick] init))
     = [''x'', ''y'']
   \<and> (\<exists>n. log_flags (trace (run quiet
          [Write (PStr [CHR ''x'', CHR 0x0A]), Write (PStr ''y''), Tick] init))
        = replicate n False)"
proof -
  let ?evs = "[Write (PStr [CHR ''x'', CHR 0x0A]), Write (PStr ''y''), Tick]"
  have a: "str_endswith [CHR ''x'', CHR 0x0A] NL" and b: "\<not> str_endswith ''y'' NL"
    by (simp_all add: str_endswith_def NL_def)
  have "log_lines (trace (run quiet ?evs init)) = [''x'', ''y'']"
    by (simp add: write_op_line [OF no_fail_quiet a] write_op_partial [OF no_fail_quiet b]
        shiplog_def shiplog_locked_def ba_log_ok [OF no_fail_quiet] tick_def init_def
        str_endswith_def NL_def)
  with log_never_to_stdout [of quiet ?evs init] show ?thesis by blast
qed

subsection \<open>C9: flush and isatty\<close>

text \<open>
  C9. \<^verbatim>\<open>flush()\<close> calls the \<^verbatim>\<open>flush\<close> of the wrapped stream and does nothing else:
  \<^verbatim>\<open>_linebits\<close>, \<^verbatim>\<open>_pending_ship\<close> and the pushed flushes are as before, nothing
  is shipped and nothing is dropped. \<^verbatim>\<open>isatty()\<close> calls the \<^verbatim>\<open>isatty\<close> of the
  wrapped stream and returns its answer, or raises what it raises.
\<close>

theorem flush_isatty_delegate:
  "snd (flush env s) = s\<lparr>trace := trace s @ [OrigFlush]\<rparr>
   \<and> fst (flush env s) = (if raises env OrigFlush then Inl SinkError else Inr ())
   \<and> linebits (snd (flush env s)) = linebits s
   \<and> pending_ship (snd (flush env s)) = pending_ship s
   \<and> queued (snd (flush env s)) = queued s
   \<and> log_lines (trace (snd (flush env s))) = log_lines (trace s)
   \<and> snd (isatty env s) = s\<lparr>trace := trace s @ [OrigIsatty]\<rparr>
   \<and> fst (isatty env s) = (if raises env OrigIsatty then Inl SinkError
                           else Inr (original_isatty env))"
  by (simp add: flush_def isatty_def extcall_def log_lines_append)

text \<open>The theorem on a stream with \<^verbatim>\<open>"a"\<close> pending and a wrapped stream that is a
  terminal.\<close>

theorem flush_isatty_delegate_witness:
  "snd (flush quiet (init\<lparr>linebits := [PStr ''a'']\<rparr>))
     = init\<lparr>linebits := [PStr ''a''], trace := [OrigFlush]\<rparr>
   \<and> fst (flush quiet (init\<lparr>linebits := [PStr ''a'']\<rparr>)) = Inr ()
   \<and> fst (isatty quiet (init\<lparr>linebits := [PStr ''a'']\<rparr>)) = Inr True"
  using flush_isatty_delegate [of quiet "init\<lparr>linebits := [PStr ''a'']\<rparr>"]
  by (simp add: quiet_def init_def)

subsection \<open>C10: a write of a value that is not a string\<close>

text \<open>
  C10. When \<^verbatim>\<open>write\<close> is called with a value that has no \<^verbatim>\<open>endswith\<close>, the call
  raises. If \<^verbatim>\<open>self._call\<close> returns, what reaches the caller is the
  \<^verbatim>\<open>AttributeError\<close>, after \<^verbatim>\<open>self._call\<close> was called with the value and after
  the value was appended to \<^verbatim>\<open>_linebits\<close>: both have happened in the state the
  caller is left with, and nothing else has; from then on every flush fails in
  \<^verbatim>\<open>join\<close>. If \<^verbatim>\<open>self._call\<close> raises, its exception reaches the caller and the
  buffer is untouched.
\<close>

theorem write_not_atomic:
  assumes "endswith v NL = Inl AttributeError"
  shows "(\<not> raises env (Call v) \<longrightarrow>
            write_op env v s =
              (Inl AttributeError, s\<lparr>trace := trace s @ [Call v], linebits := linebits s @ [v]\<rparr>)
            \<and> shiplog env (snd (write_op env v s)) = (Inl TypeError, snd (write_op env v s)))
       \<and> (raises env (Call v) \<longrightarrow>
            write_op env v s = (Inl SinkError, s\<lparr>trace := trace s @ [Call v]\<rparr>))"
proof -
  have "write_op env v s =
      (Inl AttributeError, s\<lparr>trace := trace s @ [Call v], linebits := linebits s @ [v]\<rparr>)
    \<and> shiplog env (snd (write_op env v s)) = (Inl TypeError, snd (write_op env v s))"
    if r: "\<not> raises env (Call v)"
  proof -
    from assms r have w: "write_op env v s =
        (Inl AttributeError, s\<lparr>trace := trace s @ [Call v], linebits := linebits s @ [v]\<rparr>)"
      by (simp add: write_op_return)
    from assms have "v \<noteq> PStr x" for x by (cases v) auto
    then have "join (linebits s @ [v]) = Inl TypeError" by (rule join_append_other)
    with w show ?thesis by (simp add: shiplog_poisoned)
  qed
  with write_op_raise [of env v s] show ?thesis by blast
qed

text \<open>The theorem at \<^verbatim>\<open>write(5)\<close> and at \<^verbatim>\<open>write(None)\<close> on a fresh stream.\<close>

theorem write_not_atomic_witness:
  "write_op quiet (PInt 5) init
     = (Inl AttributeError, init\<lparr>trace := [Call (PInt 5)], linebits := [PInt 5]\<rparr>)
   \<and> write_op quiet PNone init
     = (Inl AttributeError, init\<lparr>trace := [Call PNone], linebits := [PNone]\<rparr>)
   \<and> write_op \<lparr>raises = (\<lambda>e. True), original_isatty = True\<rparr> PNone init
     = (Inl SinkError, init\<lparr>trace := [Call PNone]\<rparr>)"
  using write_not_atomic [of "PInt 5" quiet init] write_not_atomic [of PNone quiet init]
    write_not_atomic [of PNone "\<lparr>raises = (\<lambda>e. True), original_isatty = True\<rparr>" init]
  by (simp add: quiet_def init_def)

end
